theory Spec2Isabelle
  imports
    Complex_Main
    "HOL-Library.Multiset"
    "HOL-Library.List_Lexorder"
    "HOL-Library.Product_Lexorder"
    "HOL-Library.Log_Nat"
begin

section \<open>Values, errors and the built-ins of the language\<close>

text \<open>
  The program is \<^verbatim>\<open>midterm.py\<close>. Its tables are lists of rows, a row is a list of
  fields. The fields read from the CSV file are strings; the program later appends floats
  to player rows and builds team rows out of strings, integers and floats.

  A string is the list of its code points. \<open>lit\<close> gives the code points of an ASCII
  literal of the program text.

  A float is represented by the rational number it denotes. Only finite floats occur:
  true division of integers and \<^verbatim>\<open>round\<close> raise rather than return an infinity or
  a NaN. The sign of a zero is not represented (the program only compares floats, and
  \<^verbatim>\<open>-0.0 == 0.0\<close>).
\<close>

datatype error =
    ValueError
  | IndexError
  | TypeError
  | AttributeError
  | ZeroDivisionError
  | OverflowError

type_synonym ustring = "nat list"

definition lit :: "string \<Rightarrow> ustring" where
  "lit s = map of_char s"

datatype pyval =
    Str ustring
  | Intg int
  | Flt rat

type_synonym row = "pyval list"

subsection \<open>The character tables\<close>

text \<open>
  \<^verbatim>\<open>str.upper\<close>, \<^verbatim>\<open>str.lower\<close> and \<^verbatim>\<open>int\<close> read the character database of the
  interpreter. For the code points below 256 its entries are written out in the
  definitions below. The entries for the code points from 256 on are not part of the
  program and are parameters of the model: whether a code point is white space, the
  value it has as a decimal digit, the code points of its upper case, and the lower case
  of a string that contains such a code point (the lower case of a capital sigma depends
  on its neighbours). Every function that reads the database takes the record; every
  theorem holds for every such record.
\<close>

record unicode =
  space_beyond :: "nat \<Rightarrow> bool"
  decimal_beyond :: "nat \<Rightarrow> nat option"
  upper_beyond :: "nat \<Rightarrow> nat list"
  lower_beyond :: "nat list \<Rightarrow> nat list"

subsection \<open>Strings\<close>

definition upper_code :: "unicode \<Rightarrow> nat \<Rightarrow> nat list" where
  \<comment> \<open>the upper case of one code point: the small sharp s gives two letters, the micro sign
      and the y with diaeresis leave the range below 256\<close>
  "upper_code u c =
     (if 97 \<le> c \<and> c \<le> 122 then [c - 32]
      else if c = 181 then [924]
      else if c = 223 then [83, 83]
      else if 224 \<le> c \<and> c \<le> 254 \<and> c \<noteq> 247 then [c - 32]
      else if c = 255 then [376]
      else if c < 256 then [c]
      else upper_beyond u c)"

definition upper :: "unicode \<Rightarrow> ustring \<Rightarrow> ustring" where
  \<comment> \<open>\<^verbatim>\<open>s.upper()\<close>\<close>
  "upper u s = concat (map (upper_code u) s)"



definition replace_char :: "nat \<Rightarrow> nat \<Rightarrow> ustring \<Rightarrow> ustring" where
  \<comment> \<open>\<^verbatim>\<open>s.replace(old, new)\<close> for one-character \<^verbatim>\<open>old\<close> and \<^verbatim>\<open>new\<close>\<close>
  "replace_char old new s = map (\<lambda>c. if c = old then new else c) s"


subsection \<open>Equality of values\<close>



subsection \<open>Lists\<close>

definition norm_index :: "nat \<Rightarrow> int \<Rightarrow> nat option" where
  \<comment> \<open>the position an index denotes in a list of \<open>n\<close> elements, counted from the end when
      the index is negative\<close>
  "norm_index n i =
     (if 0 \<le> i \<and> i < int n then Some (nat i)
      else if i < 0 \<and> - int n \<le> i then Some (nat (int n + i))
      else None)"

definition getitem :: "'a list \<Rightarrow> int \<Rightarrow> error + 'a" where
  \<comment> \<open>\<^verbatim>\<open>xs[i]\<close>\<close>
  "getitem xs i =
     (case norm_index (length xs) i of
        None \<Rightarrow> Inl IndexError
      | Some j \<Rightarrow> Inr (xs ! j))"

definition setitem :: "'a list \<Rightarrow> int \<Rightarrow> 'a \<Rightarrow> error + 'a list" where
  \<comment> \<open>\<^verbatim>\<open>xs[i] = v\<close>, returning the list after the assignment\<close>
  "setitem xs i v =
     (case norm_index (length xs) i of
        None \<Rightarrow> Inl IndexError
      | Some j \<Rightarrow> Inr (xs[j := v]))"

definition list_insert :: "'a list \<Rightarrow> nat \<Rightarrow> 'a \<Rightarrow> 'a list" where
  \<comment> \<open>\<^verbatim>\<open>xs.insert(i, v)\<close> for \<^verbatim>\<open>i \<ge> 0\<close>: an index past the end appends\<close>
  "list_insert xs i v = take i xs @ [v] @ drop i xs"

fun index_from :: "nat \<Rightarrow> 'a list \<Rightarrow> 'a \<Rightarrow> error + nat" where
  "index_from k [] v = Inl ValueError"
| "index_from k (x # xs) v = (if x = v then Inr k else index_from (Suc k) xs v)"

definition index :: "'a list \<Rightarrow> 'a \<Rightarrow> error + nat" where
  \<comment> \<open>\<^verbatim>\<open>xs.index(v)\<close>: the first position of \<^verbatim>\<open>v\<close>, ValueError when there is none\<close>
  "index xs v = index_from 0 xs v"

record slice =
  start :: int
  stop :: int

definition slice_bound :: "nat \<Rightarrow> int \<Rightarrow> nat" where
  \<comment> \<open>a slice bound clamped to the list, a negative one counted from the end\<close>
  "slice_bound n i = (if i < 0 then nat (max (int n + i) 0) else min (nat i) n)"

definition getslice :: "'a list \<Rightarrow> slice \<Rightarrow> 'a list" where
  \<comment> \<open>\<^verbatim>\<open>xs[slice(start, stop)]\<close>: a new list, never an error\<close>
  "getslice xs sl =
     (let lo = slice_bound (length xs) (start sl); hi = slice_bound (length xs) (stop sl)
      in take (hi - lo) (drop lo xs))"

subsection \<open>Conversion to an integer\<close>

text \<open>
  \<^verbatim>\<open>int(s)\<close> on a string: white space at both ends is dropped, then comes an optional
  sign, then decimal digits, where single underscores may stand between digits. Anything
  else is a ValueError, and so is a literal of more than 4300 digits (the limit of the
  interpreter as it starts; signs, underscores and white space do not count). The white
  space below 256 is tab to carriage return, the space, the next-line control and the
  no-break space; the digits below 256 are \<open>0\<close> to \<open>9\<close>. \<^verbatim>\<open>int(x)\<close> on a float truncates
  towards zero.
\<close>

definition is_space :: "unicode \<Rightarrow> nat \<Rightarrow> bool" where
  "is_space u c = (c \<in> {9, 10, 11, 12, 13, 32, 133, 160} \<or> 256 \<le> c \<and> space_beyond u c)"

definition digit_of :: "unicode \<Rightarrow> nat \<Rightarrow> nat option" where
  "digit_of u c =
     (if 48 \<le> c \<and> c \<le> 57 then Some (c - 48)
      else if 256 \<le> c then decimal_beyond u c
      else None)"

definition strip :: "unicode \<Rightarrow> ustring \<Rightarrow> ustring" where
  "strip u s = rev (dropWhile (is_space u) (rev (dropWhile (is_space u) s)))"

fun parse_digits :: "unicode \<Rightarrow> int \<Rightarrow> ustring \<Rightarrow> int option" where
  \<comment> \<open>the digits after the first one; \<open>acc\<close> is the value read so far\<close>
  "parse_digits u acc [] = Some acc"
| "parse_digits u acc [c] =
     (case digit_of u c of None \<Rightarrow> None | Some v \<Rightarrow> Some (10 * acc + int v))"
| "parse_digits u acc (c # d # cs) =
     (case digit_of u c of
        Some v \<Rightarrow> parse_digits u (10 * acc + int v) (d # cs)
      | None \<Rightarrow>
          if c = 95
          then (case digit_of u d of
                  None \<Rightarrow> None
                | Some w \<Rightarrow> parse_digits u (10 * acc + int w) cs)
          else None)"

definition parse_unsigned :: "unicode \<Rightarrow> ustring \<Rightarrow> int option" where
  "parse_unsigned u s =
     (case s of
        [] \<Rightarrow> None
      | c # cs \<Rightarrow>
          (case digit_of u c of None \<Rightarrow> None | Some v \<Rightarrow> parse_digits u (int v) cs))"

definition count_digits :: "unicode \<Rightarrow> ustring \<Rightarrow> nat" where
  "count_digits u s = length (filter (\<lambda>c. digit_of u c \<noteq> None) s)"

definition parse_int :: "unicode \<Rightarrow> ustring \<Rightarrow> error + int" where
  "parse_int u s =
     (let t = strip u s;
          negative = (t \<noteq> [] \<and> hd t = 45);
          body = (if t \<noteq> [] \<and> (hd t = 45 \<or> hd t = 43) then tl t else t)
      in case parse_unsigned u body of
           None \<Rightarrow> Inl ValueError
         | Some n \<Rightarrow>
             if 4300 < count_digits u body then Inl ValueError
             else Inr (if negative then - n else n))"

definition py_int :: "unicode \<Rightarrow> pyval \<Rightarrow> error + int" where
  "py_int u v =
     (case v of
        Str s \<Rightarrow> parse_int u s
      | Intg n \<Rightarrow> Inr n
      | Flt x \<Rightarrow> Inr (if 0 \<le> x then \<lfloor>x\<rfloor> else \<lceil>x\<rceil>))"

subsection \<open>Floats\<close>

text \<open>
  A float is an IEEE 754 binary64 number: 53 bits of precision, the smallest unit
  \<open>2 powi - 1074\<close>, magnitude below \<open>2 ^ 1024\<close>. \<open>nearest_float q\<close> is the rational
  \<open>q\<close> rounded to the nearest such number, ties to the even mantissa, before the range
  check. True division of integers is correctly rounded and raises OverflowError when
  the rounded quotient is out of range. \<^verbatim>\<open>round(x, ndigits)\<close> rounds the exact value of
  \<open>x\<close> to \<open>ndigits\<close> decimal places, ties to the even digit, and converts the decimal
  result back to the nearest float; beyond 323 places it returns \<open>x\<close>, below -308 places
  it returns zero.
\<close>

definition round_half_even :: "rat \<Rightarrow> int" where
  "round_half_even q =
     (let f = \<lfloor>q\<rfloor>; d = q - of_int f
      in if d < 1 / 2 then f else if 1 / 2 < d then f + 1 else if even f then f else f + 1)"

definition floor_log2 :: "rat \<Rightarrow> int" where
  \<comment> \<open>for \<open>0 < q\<close>: the \<open>e\<close> with \<open>2 powi e \<le> q < 2 powi (e + 1)\<close>\<close>
  "floor_log2 q = (if 1 \<le> q then bitlen \<lfloor>q\<rfloor> - 1 else - bitlen (\<lceil>1 / q\<rceil> - 1))"

definition float_ulp_exp :: "rat \<Rightarrow> int" where
  "float_ulp_exp q = max (floor_log2 \<bar>q\<bar> - 52) (- 1074)"

definition nearest_float :: "rat \<Rightarrow> rat" where
  "nearest_float q =
     (if q = 0 then 0
      else let u = float_ulp_exp q in of_int (round_half_even (q / 2 powi u)) * 2 powi u)"

definition to_float :: "rat \<Rightarrow> error + rat" where
  "to_float q =
     (let r = nearest_float q in if 2 ^ 1024 \<le> \<bar>r\<bar> then Inl OverflowError else Inr r)"

definition truediv :: "int \<Rightarrow> int \<Rightarrow> error + rat" where
  \<comment> \<open>\<^verbatim>\<open>a / b\<close> on integers\<close>
  "truediv a b = (if b = 0 then Inl ZeroDivisionError else to_float (of_int a / of_int b))"

definition py_round :: "rat \<Rightarrow> int \<Rightarrow> error + rat" where
  \<comment> \<open>\<^verbatim>\<open>round(x, ndigits)\<close> on a float\<close>
  "py_round x ndigits =
     (if 323 < ndigits then Inr x
      else if ndigits < - 308 then Inr 0
      else to_float (of_int (round_half_even (x * 10 powi ndigits)) / 10 powi ndigits))"

definition float_literal :: "rat \<Rightarrow> rat" where
  \<comment> \<open>the float a decimal literal of the program text denotes\<close>
  "float_literal q = nearest_float q"

section \<open>Field normalizers\<close>

definition clean_squad :: "unicode \<Rightarrow> ustring \<Rightarrow> ustring \<times> ustring" where
  "clean_squad u squad = (upper u (take 2 squad), drop 3 squad)"

definition format_player_position :: "ustring \<Rightarrow> ustring" where
  "format_player_position position = replace_char 44 124 position"

definition calculate_shot_conversion_rate :: "int \<Rightarrow> int \<Rightarrow> int \<Rightarrow> error + rat" where
  "calculate_shot_conversion_rate goals shots precision =
     (case truediv goals shots of
        Inl ZeroDivisionError \<Rightarrow> Inr 0
      | Inl e \<Rightarrow> Inl e
      | Inr q \<Rightarrow> py_round q precision)"

section \<open>Filters and groups\<close>






section \<open>Top scorers\<close>

definition goals_at :: "unicode \<Rightarrow> row \<Rightarrow> int \<Rightarrow> error + int" where
  \<comment> \<open>\<^verbatim>\<open>int(player[gls_idx])\<close>\<close>
  "goals_at u player gls_idx =
     (case getitem player gls_idx of Inl e \<Rightarrow> Inl e | Inr field \<Rightarrow> py_int u field)"

fun top_scorer_loop ::
  "unicode \<Rightarrow> row list \<Rightarrow> int \<Rightarrow> int \<Rightarrow> row list \<Rightarrow> error + row list" where
  "top_scorer_loop u [] gls_idx high_score top_scorers = Inr top_scorers"
| "top_scorer_loop u (player # players) gls_idx high_score top_scorers =
     (case goals_at u player gls_idx of
        Inl e \<Rightarrow> Inl e
      | Inr goals \<Rightarrow>
          if goals > high_score \<and> goals > 0
          then top_scorer_loop u players gls_idx goals [player]
          else if goals = high_score \<and> goals > 0
          then top_scorer_loop u players gls_idx high_score (top_scorers @ [player])
          else top_scorer_loop u players gls_idx high_score top_scorers)"

definition get_top_scorer :: "unicode \<Rightarrow> row list \<Rightarrow> int \<Rightarrow> error + row list" where
  "get_top_scorer u players gls_idx = top_scorer_loop u players gls_idx 0 []"

section \<open>Shooting numbers\<close>

text \<open>
  \<open>get_player_shooting_numbers\<close> takes a slice of the player row and converts its
  elements to integers in place. It is modelled twice. The first model works on a store
  of list objects (an address is a position in the store), so that it shows which object
  each assignment writes to: the slice is a new object, allocated at the end of the
  store, and the loop assigns to that object by index. The second model works on values
  and is the one the callers use; \<open>shooting_numbers_st_value\<close> below shows that the two
  return the same numbers and the same error.
\<close>

type_synonym store = "pyval list list"

fun int_loop_st :: "unicode \<Rightarrow> nat list \<Rightarrow> nat \<Rightarrow> store \<Rightarrow> (error + unit) \<times> store" where
  \<comment> \<open>\<^verbatim>\<open>for i in range(n): shooting_numbers[i] = int(shooting_numbers[i])\<close>\<close>
  "int_loop_st u [] a h = (Inr (), h)"
| "int_loop_st u (i # is) a h =
     (case getitem (h ! a) (int i) of
        Inl e \<Rightarrow> (Inl e, h)
      | Inr v \<Rightarrow>
          (case py_int u v of
             Inl e \<Rightarrow> (Inl e, h)
           | Inr n \<Rightarrow>
               (case setitem (h ! a) (int i) (Intg n) of
                  Inl e \<Rightarrow> (Inl e, h)
                | Inr xs \<Rightarrow> int_loop_st u is a (h[a := xs]))))"

definition get_player_shooting_numbers_st ::
  "unicode \<Rightarrow> store \<Rightarrow> nat \<Rightarrow> slice \<Rightarrow> (error + nat) \<times> store" where
  "get_player_shooting_numbers_st u h player sl =
     (let shooting_numbers = length h;
          h1 = h @ [getslice (h ! player) sl]
      in case int_loop_st u [0..<length (h1 ! shooting_numbers)] shooting_numbers h1 of
           (Inl e, h2) \<Rightarrow> (Inl e, h2)
         | (Inr ok, h2) \<Rightarrow> (Inr shooting_numbers, h2))"

fun ints_of :: "unicode \<Rightarrow> pyval list \<Rightarrow> error + int list" where
  "ints_of u [] = Inr []"
| "ints_of u (v # vs) =
     (case py_int u v of
        Inl e \<Rightarrow> Inl e
      | Inr n \<Rightarrow> (case ints_of u vs of Inl e \<Rightarrow> Inl e | Inr ns \<Rightarrow> Inr (n # ns)))"

definition get_player_shooting_numbers :: "unicode \<Rightarrow> row \<Rightarrow> slice \<Rightarrow> error + int list" where
  "get_player_shooting_numbers u player sl = ints_of u (getslice player sl)"

definition unpack3 :: "'a list \<Rightarrow> error + 'a \<times> 'a \<times> 'a" where
  \<comment> \<open>assignment of a list to three names\<close>
  "unpack3 xs = (case xs of [a, b, c] \<Rightarrow> Inr (a, b, c) | _ \<Rightarrow> Inl ValueError)"

definition player_triple :: "unicode \<Rightarrow> row \<Rightarrow> slice \<Rightarrow> error + int \<times> int \<times> int" where
  \<comment> \<open>\<^verbatim>\<open>goals, shots, shots_on_target = get_player_shooting_numbers(player, slice_)\<close>\<close>
  "player_triple u player sl =
     (case get_player_shooting_numbers u player sl of
        Inl e \<Rightarrow> Inl e
      | Inr numbers \<Rightarrow> unpack3 numbers)"

fun team_loop ::
  "unicode \<Rightarrow> row list \<Rightarrow> slice \<Rightarrow> int \<times> int \<times> int \<Rightarrow> error + int \<times> int \<times> int" where
  "team_loop u [] sl counts = Inr counts"
| "team_loop u (player # team) sl (goals_count, shot_count, shots_on_target_count) =
     (case player_triple u player sl of
        Inl e \<Rightarrow> Inl e
      | Inr (goals, shots, shots_on_target) \<Rightarrow>
          team_loop u team sl
            (goals_count + goals, shot_count + shots, shots_on_target_count + shots_on_target))"

definition get_team_shooting_numbers ::
  "unicode \<Rightarrow> row list \<Rightarrow> slice \<Rightarrow> error + int \<times> int \<times> int" where
  "get_team_shooting_numbers u team sl = team_loop u team sl (0, 0, 0)"

section \<open>The tables of main\<close>


text \<open>
  Steps 3.1 to 3.4 resolve the columns \<open>Pos\<close> and \<open>Squad\<close>, rewrite the position of every
  player, split the squad field into a code (inserted before it) and a name, and insert
  \<open>Country_Code\<close> into the header. No handler surrounds any of it, so the first error
  ends the run. The result is the new header, the new rows and the two indices as
  \<^verbatim>\<open>main\<close> holds them afterwards.
\<close>

definition resolve_columns :: "ustring list \<Rightarrow> error + nat \<times> nat" where
  "resolve_columns headers =
     (case index headers (lit ''Pos'') of
        Inl e \<Rightarrow> Inl e
      | Inr pos_idx \<Rightarrow>
          (case index headers (lit ''Squad'') of
             Inl e \<Rightarrow> Inl e
           | Inr squad_idx \<Rightarrow> Inr (pos_idx, squad_idx)))"

definition normalize_player :: "unicode \<Rightarrow> nat \<Rightarrow> nat \<Rightarrow> row \<Rightarrow> error + row" where
  "normalize_player u pos_idx squad_idx player =
     (case getitem player (int pos_idx) of
        Inl e \<Rightarrow> Inl e
      | Inr (Str position) \<Rightarrow>
          (case setitem player (int pos_idx) (Str (format_player_position position)) of
             Inl e \<Rightarrow> Inl e
           | Inr player1 \<Rightarrow>
               (case getitem player1 (int squad_idx) of
                  Inl e \<Rightarrow> Inl e
                | Inr (Str squad_field) \<Rightarrow>
                    (case clean_squad u squad_field of
                       (code, squad) \<Rightarrow>
                         setitem (list_insert player1 squad_idx (Str code))
                           (int squad_idx + 1) (Str squad))
                | Inr _ \<Rightarrow> Inl TypeError))
      | Inr _ \<Rightarrow> Inl AttributeError)"

fun normalize_players :: "unicode \<Rightarrow> nat \<Rightarrow> nat \<Rightarrow> row list \<Rightarrow> error + row list" where
  "normalize_players u pos_idx squad_idx [] = Inr []"
| "normalize_players u pos_idx squad_idx (player # players) =
     (case normalize_player u pos_idx squad_idx player of
        Inl e \<Rightarrow> Inl e
      | Inr player' \<Rightarrow>
          (case normalize_players u pos_idx squad_idx players of
             Inl e \<Rightarrow> Inl e
           | Inr players' \<Rightarrow> Inr (player' # players')))"

definition normalize ::
  "unicode \<Rightarrow> ustring list \<Rightarrow> row list \<Rightarrow> error + ustring list \<times> row list \<times> nat \<times> nat" where
  "normalize u headers players =
     (case resolve_columns headers of
        Inl e \<Rightarrow> Inl e
      | Inr (pos_idx, squad_idx) \<Rightarrow>
          (case normalize_players u pos_idx squad_idx players of
             Inl e \<Rightarrow> Inl e
           | Inr players' \<Rightarrow>
               Inr (list_insert headers squad_idx (lit ''Country_Code''), players',
                    pos_idx, squad_idx + 1)))"








section \<open>Team ratings and ranking\<close>

text \<open>
  Step 12 works on the team rows that step 11 has built. Such a row is the list of a
  country, three integers and two floats, and the country is a string (the name comes
  from a player row and has passed \<^verbatim>\<open>lower\<close> in \<open>get_team\<close>), so the rows are records
  here; \<open>team_row\<close> and \<open>rated_row\<close> give the lists they stand for, before and after the
  rating is appended. \<^verbatim>\<open>team[-1]\<close> before and \<^verbatim>\<open>x[-2]\<close> after are the field
  \<open>shots_on_target_conv_rate\<close>, and \<^verbatim>\<open>x[0]\<close> is the field \<open>country\<close>.
  \<^verbatim>\<open>sorted\<close> is a stable sort into ascending order of the keys; tuples are compared
  lexicographically and strings by code point.
\<close>

record team_metrics =
  country :: ustring
  goals :: int
  shots :: int
  shots_on_target :: int
  shots_conv_rate :: rat
  shots_on_target_conv_rate :: rat

record rated_team = team_metrics +
  efficiency_rating :: ustring




definition rating :: "rat \<Rightarrow> ustring" where
  "rating conv_rate =
     (if float_literal (4 / 10) \<le> conv_rate then lit ''Top Tier''
      else if float_literal (3 / 10) \<le> conv_rate then lit ''Upper Middle Tier''
      else if float_literal (2 / 10) \<le> conv_rate then lit ''Lower Middle Tier''
      else lit ''Bottom Tier'')"

definition rate_team :: "team_metrics \<Rightarrow> rated_team" where
  "rate_team team = team_metrics.extend team
     (rated_team.fields (rating (shots_on_target_conv_rate team)))"

definition rate_teams :: "team_metrics list \<Rightarrow> rated_team list" where
  "rate_teams teams = map rate_team teams"

definition rank_key :: "rated_team \<Rightarrow> rat \<times> ustring" where
  "rank_key x = (- shots_on_target_conv_rate x, country x)"

definition rank_teams :: "rated_team list \<Rightarrow> rated_team list" where
  "rank_teams teams = sort_key rank_key teams"

text \<open>
  The concrete results below are computed with a database that has no entry beyond 255.
\<close>

definition latin1 :: unicode where
  "latin1 = \<lparr>space_beyond = (\<lambda>c. False), decimal_beyond = (\<lambda>c. None),
     upper_beyond = (\<lambda>c. [c]), lower_beyond = (\<lambda>s. s)\<rparr>"

section \<open>Properties\<close>

subsection \<open>Literals\<close>

lemma lit_eq_iff [simp]: "lit a = lit b \<longleftrightarrow> a = b"
  by (simp add: lit_def inj_map_eq_map inj_on_def)

subsection \<open>Column lookup\<close>

lemma index_from_absent: "v \<notin> set xs \<Longrightarrow> index_from k xs v = Inl ValueError"
  by (induction xs arbitrary: k) auto

lemma index_from_error: "index_from k xs v = Inl e \<Longrightarrow> e = ValueError"
  by (induction xs arbitrary: k) (auto split: if_splits)

lemma index_from_present:
  "v \<in> set xs \<Longrightarrow>
     \<exists>i. index_from k xs v = Inr (k + i) \<and> i < length xs \<and> xs ! i = v \<and> (\<forall>j<i. xs ! j \<noteq> v)"
proof (induction xs arbitrary: k)
  case Nil
  then show ?case by simp
next
  case (Cons x xs)
  show ?case
  proof (cases "x = v")
    case True
    then show ?thesis by simp
  next
    case False
    with Cons.prems have "v \<in> set xs" by simp
    from Cons.IH [OF this, of "Suc k"] obtain i where
      i: "index_from (Suc k) xs v = Inr (Suc k + i)" "i < length xs" "xs ! i = v"
         "\<forall>j<i. xs ! j \<noteq> v"
      by blast
    have "\<forall>j<Suc i. (x # xs) ! j \<noteq> v"
      using False i(4) by (auto simp: nth_Cons split: nat.splits)
    with False i(1-3) show ?thesis
      by (intro exI [of _ "Suc i"]) simp
  qed
qed

text \<open>
  C7. \<open>headers.index(name)\<close> returns the zero-based position of the first field called
  \<open>name\<close> when the header has one, and fails when it has none; the failure is Python's
  ValueError, the error of a failed lookup in a list. In \<^verbatim>\<open>main\<close> the failure is not
  handled: on a header without \<open>Pos\<close> or without \<open>Squad\<close> the stage that resolves the
  columns ends with that error, whatever the rows are.
\<close>

theorem index_lookup:
  "(name \<in> set header \<longrightarrow>
      (\<exists>i. index header name = Inr i \<and> i < length header \<and> header ! i = name
          \<and> (\<forall>j<i. header ! j \<noteq> name)))
   \<and> (name \<notin> set header \<longrightarrow> index header name = Inl ValueError)
   \<and> ((lit ''Pos'') \<notin> set header \<or> (lit ''Squad'') \<notin> set header \<longrightarrow>
        normalize u header players = Inl ValueError)"
proof (intro conjI impI)
  assume "name \<in> set header"
  from index_from_present [OF this, of 0]
  show "\<exists>i. index header name = Inr i \<and> i < length header \<and> header ! i = name
          \<and> (\<forall>j<i. header ! j \<noteq> name)"
    by (simp add: index_def)
next
  assume "name \<notin> set header"
  then show "index header name = Inl ValueError"
    by (simp add: index_def index_from_absent)
next
  assume "(lit ''Pos'') \<notin> set header \<or> (lit ''Squad'') \<notin> set header"
  then have "resolve_columns header = Inl ValueError"
    by (auto simp: resolve_columns_def index_def index_from_absent split: sum.splits
          dest: index_from_error)
  then show "normalize u header players = Inl ValueError"
    by (simp add: normalize_def)
qed

theorem index_lookup_witness:
  "index [lit ''Rk'', lit ''Player'', lit ''Pos'', lit ''Squad''] (lit ''Squad'') = Inr 3
   \<and> index [lit ''Rk'', lit ''Player'', lit ''Pos'', lit ''Squad''] (lit ''Gls'') = Inl ValueError
   \<and> normalize latin1 [lit ''Rk'', lit ''Player'', lit ''Squad'']
        [[Str (lit ''1''), Str (lit ''Ann''), Str (lit ''es Spain'')]] = Inl ValueError"
proof -
  have a: "(lit ''Squad'') \<in> set [lit ''Rk'', lit ''Player'', lit ''Pos'', lit ''Squad'']" by simp
  have b: "(lit ''Gls'') \<notin> set [lit ''Rk'', lit ''Player'', lit ''Pos'', lit ''Squad'']" by simp
  have c: "(lit ''Pos'') \<notin> set [lit ''Rk'', lit ''Player'', lit ''Squad''] \<or> (lit ''Squad'') \<notin> set [lit ''Rk'', lit ''Player'', lit ''Squad'']"
    by simp
  from index_lookup [of "(lit ''Squad'')" "[lit ''Rk'', lit ''Player'', lit ''Pos'', lit ''Squad'']"] a
  obtain i where i: "index [lit ''Rk'', lit ''Player'', lit ''Pos'', lit ''Squad''] (lit ''Squad'') = Inr i"
    by blast
  have "index [lit ''Rk'', lit ''Player'', lit ''Pos'', lit ''Squad''] (lit ''Squad'') = Inr 3"
    by (simp add: index_def)
  moreover from index_lookup [of "(lit ''Gls'')" "[lit ''Rk'', lit ''Player'', lit ''Pos'', lit ''Squad'']"] b
  have "index [lit ''Rk'', lit ''Player'', lit ''Pos'', lit ''Squad''] (lit ''Gls'') = Inl ValueError"
    by blast
  moreover from index_lookup [of "(lit ''Gls'')" "[lit ''Rk'', lit ''Player'', lit ''Squad'']"] c
  have "normalize latin1 [lit ''Rk'', lit ''Player'', lit ''Squad'']
        [[Str (lit ''1''), Str (lit ''Ann''), Str (lit ''es Spain'')]] = Inl ValueError"
    by blast
  ultimately show ?thesis by simp
qed

subsection \<open>Splitting the squad field\<close>

text \<open>
  C8. On a string made of a two-character abbreviation, one separator character and a
  name, \<open>clean_squad\<close> returns the upper case of the abbreviation and the name as it
  stands, whatever the characters are.
\<close>

theorem clean_squad_split:
  "(length abbr = 2 \<longrightarrow> clean_squad u (abbr @ sep # name) = (upper u abbr, name))
   \<and> clean_squad u (lit ''ng Nigeria'') = (lit ''NG'', lit ''Nigeria'')
   \<and> clean_squad u (lit ''za South Africa'') = (lit ''ZA'', lit ''South Africa'')"
  by (simp add: clean_squad_def upper_def upper_code_def lit_def)

theorem clean_squad_split_witness:
  "length (lit ''es'') = 2
   \<and> clean_squad latin1 (lit ''es'' @ 32 # lit ''Spain'') = (lit ''ES'', lit ''Spain'')
   \<and> clean_squad latin1 ([223, 101] @ 32 # lit ''Xy'') = (lit ''SSE'', lit ''Xy'')
   \<and> clean_squad latin1 ([233, 115] @ 32 # lit ''X'') = ([201, 83], lit ''X'')"
  using clean_squad_split [of "lit ''es''" latin1 32 "lit ''Spain''"]
    clean_squad_split [of "[223, 101]" latin1 32 "lit ''Xy''"]
    clean_squad_split [of "[233, 115]" latin1 32 "lit ''X''"]
  by (simp add: upper_def upper_code_def lit_def)

text \<open>
  C10. \<open>clean_squad\<close> has no failing branch: slicing clamps its bounds. On a string of
  fewer than three characters it returns the upper case of the whole string and the
  empty string.
\<close>

theorem clean_squad_short:
  "length squad < 3 \<Longrightarrow> clean_squad u squad = (upper u squad, [])"
  by (simp add: clean_squad_def)

theorem clean_squad_short_witness:
  "length (lit ''ng'') < 3 \<and> clean_squad latin1 (lit ''ng'') = (lit ''NG'', [])
   \<and> clean_squad latin1 [] = ([], [])
   \<and> clean_squad latin1 [223] = (lit ''SS'', [])"
  using clean_squad_short [of "lit ''ng''" latin1] clean_squad_short [of "[]" latin1]
    clean_squad_short [of "[223]" latin1]
  by (simp add: upper_def upper_code_def lit_def)

subsection \<open>Floats\<close>

lemma powi2_less_iff: "(2::rat) powi a < 2 powi b \<longleftrightarrow> a < b"
proof
  assume l: "(2::rat) powi a < 2 powi b"
  show "a < b"
  proof (rule ccontr)
    assume "\<not> a < b"
    then have "b \<le> a" by simp
    then have "(2::rat) powi b \<le> 2 powi a" by (intro power_int_increasing) simp_all
    with l show False by simp
  qed
next
  assume "a < b"
  then show "(2::rat) powi a < 2 powi b" by (intro power_int_strict_increasing) simp_all
qed

lemma powi2_le_iff: "(2::rat) powi a \<le> 2 powi b \<longleftrightarrow> a \<le> b"
  using powi2_less_iff [of b a] by (simp add: not_less [symmetric])

lemma floor_log2_bounds:
  assumes "0 < q"
  shows "2 powi floor_log2 q \<le> q \<and> q < 2 powi (floor_log2 q + 1)"
proof (cases "1 \<le> q")
  case True
  define n where "n = \<lfloor>q\<rfloor>"
  have n: "0 < n" using True by (simp add: n_def)
  from bitlen_bounds [OF n] have b: "2 ^ nat (bitlen n - 1) \<le> n" "n < 2 ^ nat (bitlen n)"
    by auto
  have bl: "1 \<le> bitlen n" using n by (auto simp: bitlen_alt_def)
  have "of_int (2 ^ nat (bitlen n - 1)) \<le> (of_int n :: rat)"
    using b(1) by (simp only: of_int_le_iff)
  also have "\<dots> \<le> q" by (simp add: n_def)
  finally have lo: "2 powi (bitlen n - 1) \<le> q" using bl by (simp add: power_int_def)
  have "n + 1 \<le> 2 ^ nat (bitlen n)" using b(2) by simp
  then have "(of_int (n + 1) :: rat) \<le> of_int (2 ^ nat (bitlen n))"
    by (simp only: of_int_le_iff)
  moreover have "q < of_int (n + 1)" unfolding n_def by linarith
  ultimately have hi: "q < 2 powi (bitlen n)" using bl by (simp add: power_int_def)
  from lo hi True show ?thesis by (simp add: floor_log2_def n_def)
next
  case False
  define t where "t = 1 / q"
  define n where "n = \<lceil>t\<rceil> - 1"
  have t: "1 < t" using False assms by (simp add: t_def)
  have n: "0 < n" using t by (simp add: n_def less_ceiling_iff)
  from bitlen_bounds [OF n] have b: "2 ^ nat (bitlen n - 1) \<le> n" "n < 2 ^ nat (bitlen n)"
    by auto
  have bl: "1 \<le> bitlen n" using n by (auto simp: bitlen_alt_def)
  have "(of_int n :: rat) < t" by (simp add: n_def) linarith
  moreover have "(2::rat) ^ nat (bitlen n - 1) \<le> of_int n" using b(1) by simp
  ultimately have "(2::rat) ^ nat (bitlen n - 1) < t" by linarith
  then have lo: "2 powi (bitlen n - 1) < t" using bl by (simp add: power_int_def)
  have "n + 1 \<le> 2 ^ nat (bitlen n)" using b(2) by simp
  then have "(of_int (n + 1) :: rat) \<le> of_int (2 ^ nat (bitlen n))"
    by (simp only: of_int_le_iff)
  moreover have "t \<le> of_int (n + 1)" by (simp add: n_def)
  ultimately have hi: "t \<le> 2 powi (bitlen n)" using bl by (simp add: power_int_def)
  have "2 powi (- bitlen n) \<le> q"
  proof -
    have "1 / 2 powi (bitlen n) \<le> 1 / t" using hi t by (intro divide_left_mono) auto
    then show ?thesis using assms by (simp add: t_def power_int_minus field_simps)
  qed
  moreover have "q < 2 powi (- bitlen n + 1)"
  proof -
    have "1 / t < 1 / 2 powi (bitlen n - 1)"
      using lo t by (intro divide_strict_left_mono) auto
    moreover have "(2::rat) powi (- bitlen n + 1) = 1 / 2 powi (bitlen n - 1)"
      using power_int_minus_divide [of "2::rat" "bitlen n - 1"] by simp
    moreover have "q = 1 / t" by (simp add: t_def)
    ultimately show ?thesis by (simp only:)
  qed
  ultimately show ?thesis using False by (simp add: floor_log2_def n_def t_def)
qed

lemma floor_log2_eqI:
  assumes "2 powi e \<le> (q::rat)" "q < 2 powi (e + 1)"
  shows "floor_log2 q = e"
proof -
  have "(0::rat) < 2 powi e" by simp
  with assms(1) have "0 < q" by linarith
  from floor_log2_bounds [OF this]
  have b: "2 powi floor_log2 q \<le> q" "q < 2 powi (floor_log2 q + 1)" by auto
  have "(2::rat) powi e < 2 powi (floor_log2 q + 1)" using assms(1) b(2) by linarith
  then have 1: "e < floor_log2 q + 1" by (simp only: powi2_less_iff)
  have "(2::rat) powi floor_log2 q < 2 powi (e + 1)" using assms(2) b(1) by linarith
  then have 2: "floor_log2 q < e + 1" by (simp only: powi2_less_iff)
  from 1 2 show ?thesis by simp
qed

lemma round_half_even_of_int: "round_half_even (of_int n) = n"
  by (simp add: round_half_even_def)

lemma round_half_even_divide:
  assumes "0 < b"
  shows "round_half_even (of_int a / of_int b) =
     (let f = a div b; r = a mod b
      in if 2 * r < b then f else if b < 2 * r then f + 1 else if even f then f else f + 1)"
proof -
  have f: "\<lfloor>(of_int a :: rat) / of_int b\<rfloor> = a div b"
    by (simp add: floor_divide_of_int_eq)
  have "(of_int a :: rat) = of_int (a div b * b + a mod b)" by simp
  also have "\<dots> = of_int (a div b) * of_int b + of_int (a mod b)"
    by (simp only: of_int_add of_int_mult)
  finally have d: "(of_int a :: rat) / of_int b - of_int (a div b) = of_int (a mod b) / of_int b"
    using assms by (simp add: field_simps)
  have lt: "(of_int (a mod b) :: rat) / of_int b < 1 / 2 \<longleftrightarrow> 2 * (a mod b) < b"
  proof -
    have "(of_int (a mod b) :: rat) / of_int b < 1 / 2
        \<longleftrightarrow> (of_int (2 * (a mod b)) :: rat) < of_int b"
      using assms by (simp add: field_simps)
    then show ?thesis by (simp only: of_int_less_iff)
  qed
  have gt: "1 / 2 < (of_int (a mod b) :: rat) / of_int b \<longleftrightarrow> b < 2 * (a mod b)"
  proof -
    have "1 / 2 < (of_int (a mod b) :: rat) / of_int b
        \<longleftrightarrow> (of_int b :: rat) < of_int (2 * (a mod b))"
      using assms by (simp add: field_simps)
    then show ?thesis by (simp only: of_int_less_iff)
  qed
  show ?thesis
    unfolding round_half_even_def Let_def f d lt gt ..
qed

lemma round_half_even_numeral:
  "round_half_even (numeral a / numeral b) =
     (let f = numeral a div numeral b; r = numeral a mod numeral b :: int
      in if 2 * r < numeral b then f else if numeral b < 2 * r then f + 1
         else if even f then f else f + 1)"
  using round_half_even_divide [of "numeral b" "numeral a"] by simp

lemma float_literal_0_4: "float_literal (2 / 5) = 3602879701896397 / 9007199254740992"
proof -
  have "floor_log2 (2 / 5) = - 2" by (rule floor_log2_eqI) simp_all
  then show ?thesis
    by (simp add: float_literal_def nearest_float_def float_ulp_exp_def
        round_half_even_numeral Let_def)
qed

lemma float_literal_0_3: "float_literal (3 / 10) = 5404319552844595 / 18014398509481984"
proof -
  have "floor_log2 (3 / 10) = - 2" by (rule floor_log2_eqI) simp_all
  then show ?thesis
    by (simp add: float_literal_def nearest_float_def float_ulp_exp_def
        round_half_even_numeral Let_def)
qed

lemma float_literal_0_2: "float_literal (1 / 5) = 3602879701896397 / 18014398509481984"
proof -
  have "floor_log2 (1 / 5) = - 3" by (rule floor_log2_eqI) simp_all
  then show ?thesis
    by (simp add: float_literal_def nearest_float_def float_ulp_exp_def
        round_half_even_numeral Let_def)
qed

lemmas float_literals = float_literal_0_4 float_literal_0_3 float_literal_0_2

subsection \<open>Tiers\<close>

text \<open>
  C4. The rating of a rate \<open>r\<close> is \<open>Top Tier\<close> exactly when \<open>r\<close> is at least the float
  \<open>0.4\<close>, \<open>Upper Middle Tier\<close> exactly when it is at least the float \<open>0.3\<close> and below
  \<open>0.4\<close>, \<open>Lower Middle Tier\<close> exactly when it is at least \<open>0.2\<close> and below \<open>0.3\<close>, and
  \<open>Bottom Tier\<close> exactly when it is below \<open>0.2\<close>; each boundary value has the higher
  rating. Step 12 of \<^verbatim>\<open>main\<close> appends that rating of the on-target rate to the team row
  and leaves the other fields as they are.
\<close>

theorem rating_tiers:
  "(rating r = (lit ''Top Tier'') \<longleftrightarrow> float_literal (4 / 10) \<le> r)
   \<and> (rating r = (lit ''Upper Middle Tier'') \<longleftrightarrow> float_literal (3 / 10) \<le> r \<and> r < float_literal (4 / 10))
   \<and> (rating r = (lit ''Lower Middle Tier'') \<longleftrightarrow> float_literal (2 / 10) \<le> r \<and> r < float_literal (3 / 10))
   \<and> (rating r = (lit ''Bottom Tier'') \<longleftrightarrow> r < float_literal (2 / 10))
   \<and> rating (float_literal (4 / 10)) = (lit ''Top Tier'')
   \<and> rating (float_literal (3 / 10)) = (lit ''Upper Middle Tier'')
   \<and> rating (float_literal (2 / 10)) = (lit ''Lower Middle Tier'')
   \<and> efficiency_rating (rate_team team) = rating (shots_on_target_conv_rate team)
   \<and> team_metrics.truncate (rate_team team) = team"
  by (auto simp: rating_def float_literals rate_team_def team_metrics.defs rated_team.defs)

theorem rating_tiers_witness:
  "rating (1 / 4) = (lit ''Lower Middle Tier'') \<and> rating (1 / 8) = (lit ''Bottom Tier'')"
  using rating_tiers [of "1 / 4"] rating_tiers [of "1 / 8"]
  by (simp add: float_literals)

subsection \<open>Ranking\<close>

lemma rank_key_le:
  "rank_key x \<le> rank_key y \<longleftrightarrow>
     shots_on_target_conv_rate y < shots_on_target_conv_rate x
     \<or> (shots_on_target_conv_rate x = shots_on_target_conv_rate y \<and> country x \<le> country y)"
  by (auto simp: rank_key_def less_eq_prod_def)

text \<open>
  C3. The ranked list is a permutation of the teams; it is ordered by falling on-target
  rate and, among equal rates, by rising country name; teams with the same rate and the
  same name keep their order; ranking a ranked list changes nothing.
\<close>

theorem rank_teams_sorted:
  "mset (rank_teams teams) = mset teams
   \<and> sorted_wrt (\<lambda>x y. shots_on_target_conv_rate y < shots_on_target_conv_rate x
         \<or> (shots_on_target_conv_rate x = shots_on_target_conv_rate y
             \<and> country x \<le> country y)) (rank_teams teams)
   \<and> filter (\<lambda>x. shots_on_target_conv_rate x = r \<and> country x = c) (rank_teams teams)
       = filter (\<lambda>x. shots_on_target_conv_rate x = r \<and> country x = c) teams
   \<and> rank_teams (rank_teams teams) = rank_teams teams"
proof (intro conjI)
  show "mset (rank_teams teams) = mset teams"
    by (simp add: rank_teams_def)
  have s: "sorted (map rank_key (rank_teams teams))"
    by (simp add: rank_teams_def)
  then show "sorted_wrt (\<lambda>x y. shots_on_target_conv_rate y < shots_on_target_conv_rate x
         \<or> (shots_on_target_conv_rate x = shots_on_target_conv_rate y
             \<and> country x \<le> country y)) (rank_teams teams)"
    by (simp add: sorted_map rank_key_le)
  have "(\<lambda>x. shots_on_target_conv_rate x = r \<and> country x = c) = (\<lambda>x. rank_key x = (- r, c))"
    by (auto simp: rank_key_def)
  then show "filter (\<lambda>x. shots_on_target_conv_rate x = r \<and> country x = c) (rank_teams teams)
       = filter (\<lambda>x. shots_on_target_conv_rate x = r \<and> country x = c) teams"
    by (simp add: rank_teams_def sort_key_stable)
  from s show "rank_teams (rank_teams teams) = rank_teams teams"
    unfolding rank_teams_def by (rule sort_key_id_if_sorted)
qed

theorem rank_teams_sorted_witness:
  "rank_teams
     [\<lparr>country = (lit ''b''), goals = 1, shots = 10, shots_on_target = 4, shots_conv_rate = 1 / 10,
        shots_on_target_conv_rate = 1 / 4, efficiency_rating = (lit ''Lower Middle Tier'')\<rparr>,
      \<lparr>country = (lit ''a''), goals = 1, shots = 10, shots_on_target = 4, shots_conv_rate = 1 / 10,
        shots_on_target_conv_rate = 1 / 4, efficiency_rating = (lit ''Lower Middle Tier'')\<rparr>,
      \<lparr>country = (lit ''c''), goals = 1, shots = 10, shots_on_target = 2, shots_conv_rate = 1 / 10,
        shots_on_target_conv_rate = 1 / 2, efficiency_rating = (lit ''Top Tier'')\<rparr>]
   = [\<lparr>country = (lit ''c''), goals = 1, shots = 10, shots_on_target = 2, shots_conv_rate = 1 / 10,
        shots_on_target_conv_rate = 1 / 2, efficiency_rating = (lit ''Top Tier'')\<rparr>,
      \<lparr>country = (lit ''a''), goals = 1, shots = 10, shots_on_target = 4, shots_conv_rate = 1 / 10,
        shots_on_target_conv_rate = 1 / 4, efficiency_rating = (lit ''Lower Middle Tier'')\<rparr>,
      \<lparr>country = (lit ''b''), goals = 1, shots = 10, shots_on_target = 4, shots_conv_rate = 1 / 10,
        shots_on_target_conv_rate = 1 / 4, efficiency_rating = (lit ''Lower Middle Tier'')\<rparr>]"
  using rank_teams_sorted
    [of "[\<lparr>country = (lit ''b''), goals = 1, shots = 10, shots_on_target = 4, shots_conv_rate = 1 / 10,
        shots_on_target_conv_rate = 1 / 4, efficiency_rating = (lit ''Lower Middle Tier'')\<rparr>,
      \<lparr>country = (lit ''a''), goals = 1, shots = 10, shots_on_target = 4, shots_conv_rate = 1 / 10,
        shots_on_target_conv_rate = 1 / 4, efficiency_rating = (lit ''Lower Middle Tier'')\<rparr>,
      \<lparr>country = (lit ''c''), goals = 1, shots = 10, shots_on_target = 2, shots_conv_rate = 1 / 10,
        shots_on_target_conv_rate = 1 / 2, efficiency_rating = (lit ''Top Tier'')\<rparr>]" "1 / 4" "(lit ''a'')"]
  by (simp add: rank_teams_def rank_key_def less_eq_prod_def lit_def)

subsection \<open>Integer literals\<close>

lemma parse_int_small:
  "parse_int u (lit ''0'') = Inr 0" "parse_int u (lit ''1'') = Inr 1"
  "parse_int u (lit ''2'') = Inr 2" "parse_int u (lit ''3'') = Inr 3"
  "parse_int u (lit ''4'') = Inr 4" "parse_int u (lit ''5'') = Inr 5"
  "parse_int u (lit ''10'') = Inr 10" "parse_int u (lit ''x'') = Inl ValueError"
  by (simp_all add: parse_int_def strip_def is_space_def parse_unsigned_def digit_of_def
      count_digits_def lit_def)

lemma parse_int_rejects:
  "parse_int u [31, 55] = Inl ValueError"
  "parse_int u [31, 49] = Inl ValueError"
  "parse_int u (replicate 4301 48) = Inl ValueError"
  "parse_int u ([133] @ lit ''7'' @ [160]) = Inr 7"
proof -
  show "parse_int u [31, 55] = Inl ValueError" "parse_int u [31, 49] = Inl ValueError"
    by (simp_all add: parse_int_def strip_def is_space_def parse_unsigned_def digit_of_def)
  have "\<not> is_space u 48" by (simp add: is_space_def)
  then have "strip u (replicate 4301 48) = replicate 4301 48"
    by (simp add: strip_def)
  moreover have "count_digits u (replicate 4301 48) = 4301"
    by (simp add: count_digits_def digit_of_def)
  ultimately show "parse_int u (replicate 4301 48) = Inl ValueError"
    by (simp add: parse_int_def Let_def split: option.splits)
  show "parse_int u ([133] @ lit ''7'' @ [160]) = Inr 7"
    by (simp add: parse_int_def strip_def is_space_def parse_unsigned_def digit_of_def
        count_digits_def lit_def)
qed

subsection \<open>Top scorers\<close>

lemma top_scorer_loop_spec:
  assumes "\<forall>p\<in>set players. goals_at u p i = Inr (G p)" "0 \<le> h"
  shows "top_scorer_loop u players i h tops =
     Inr (if \<exists>p\<in>set players. h < G p
          then filter (\<lambda>p. \<forall>q\<in>set players. G q \<le> G p) players
          else tops @ filter (\<lambda>p. G p = h \<and> 0 < h) players)"
  using assms
proof (induction players arbitrary: h tops)
  case Nil
  then show ?case by simp
next
  case (Cons a players)
  have ga: "goals_at u a i = Inr (G a)" using Cons.prems by simp
  have all: "\<forall>p\<in>set players. goals_at u p i = Inr (G p)" using Cons.prems by simp
  consider (gt) "h < G a" | (eq) "G a = h" "0 < h" | (other) "G a \<le> h" "G a \<noteq> h \<or> h = 0"
    using Cons.prems(2) by fastforce
  then show ?case
  proof cases
    case gt
    then have pos: "0 \<le> G a" "0 < G a" using Cons.prems(2) by auto
    have step: "top_scorer_loop u (a # players) i h tops = top_scorer_loop u players i (G a) [a]"
      using gt pos by (simp add: ga)
    show ?thesis
    proof (cases "\<exists>p\<in>set players. G a < G p")
      case True
      then have "filter (\<lambda>p. \<forall>q\<in>set (a # players). G q \<le> G p) (a # players)
          = filter (\<lambda>p. \<forall>q\<in>set players. G q \<le> G p) players"
        by (auto intro!: filter_cong)
      with True gt show ?thesis
        unfolding step Cons.IH [OF all pos(1)] by auto
    next
      case False
      then have "filter (\<lambda>p. \<forall>q\<in>set (a # players). G q \<le> G p) (a # players)
          = a # filter (\<lambda>p. G p = G a \<and> 0 < G a) players"
        using pos by (auto intro!: filter_cong)
      with False gt show ?thesis
        unfolding step Cons.IH [OF all pos(1)] by auto
    qed
  next
    case eq
    have step: "top_scorer_loop u (a # players) i h tops = top_scorer_loop u players i h (tops @ [a])"
      using eq by (simp add: ga)
    have "(\<exists>p\<in>set players. h < G p) \<Longrightarrow>
        filter (\<lambda>p. \<forall>q\<in>set (a # players). G q \<le> G p) (a # players)
          = filter (\<lambda>p. \<forall>q\<in>set players. G q \<le> G p) players"
      using eq by (auto intro!: filter_cong)
    with eq show ?thesis
      unfolding step Cons.IH [OF all Cons.prems(2)] by auto
  next
    case other
    have step: "top_scorer_loop u (a # players) i h tops = top_scorer_loop u players i h tops"
      using other by (auto simp: ga)
    have "(\<exists>p\<in>set players. h < G p) \<Longrightarrow>
        filter (\<lambda>p. \<forall>q\<in>set (a # players). G q \<le> G p) (a # players)
          = filter (\<lambda>p. \<forall>q\<in>set players. G q \<le> G p) players"
      using other by (auto intro!: filter_cong)
    with other show ?thesis
      unfolding step Cons.IH [OF all Cons.prems(2)] by auto
  qed
qed


lemma map_Inr_eq:
  assumes "map f xs = map Inr ys"
  shows "(\<forall>x\<in>set xs. f x = Inr (projr (f x))) \<and> ys = map (\<lambda>x. projr (f x)) xs"
  using assms
proof (induction xs arbitrary: ys)
  case Nil
  then show ?case by simp
next
  case (Cons a xs)
  then obtain y ys' where ys: "ys = y # ys'" by (cases ys) auto
  with Cons.prems have "f a = Inr y" "map f xs = map Inr ys'" by auto
  with Cons.IH [of ys'] ys show ?case by simp
qed

text \<open>
  C1. When every row has an integer goal field (\<open>gs\<close> is the list of the goal counts),
  \<open>get_top_scorer\<close> returns the rows whose count is the largest count, in their order,
  if that count is positive, and no row otherwise. A row it returns has a positive count.
\<close>

theorem get_top_scorer_max:
  assumes "map (\<lambda>p. goals_at u p gls_idx) players = map Inr gs"
  shows "get_top_scorer u players gls_idx =
      Inr (if gs \<noteq> [] \<and> 0 < Max (set gs)
           then filter (\<lambda>p. goals_at u p gls_idx = Inr (Max (set gs))) players
           else [])
    \<and> (\<forall>res. get_top_scorer u players gls_idx = Inr res \<longrightarrow>
          (\<forall>p\<in>set res. \<exists>g. goals_at u p gls_idx = Inr g \<and> 0 < g))"
proof -
  define G where "G = (\<lambda>p. projr (goals_at u p gls_idx))"
  from map_Inr_eq [OF assms]
  have all: "\<forall>p\<in>set players. goals_at u p gls_idx = Inr (G p)" and gs: "gs = map G players"
    by (simp_all add: G_def)
  have loop: "get_top_scorer u players gls_idx =
     Inr (if \<exists>p\<in>set players. 0 < G p
          then filter (\<lambda>p. \<forall>q\<in>set players. G q \<le> G p) players
          else [])"
    unfolding get_top_scorer_def using top_scorer_loop_spec [OF all, of 0 "[]"] by simp
  have first: "get_top_scorer u players gls_idx =
      Inr (if gs \<noteq> [] \<and> 0 < Max (set gs)
           then filter (\<lambda>p. goals_at u p gls_idx = Inr (Max (set gs))) players
           else [])"
  proof (cases "players = []")
    case True
    with loop gs show ?thesis by simp
  next
    case False
    then have ne: "set gs \<noteq> {}" "finite (set gs)" "gs \<noteq> []" by (simp_all add: gs)
    have pos: "(\<exists>p\<in>set players. 0 < G p) \<longleftrightarrow> 0 < Max (set gs)"
      using ne by (auto simp: gs Max_gr_iff)
    have "filter (\<lambda>p. \<forall>q\<in>set players. G q \<le> G p) players
        = filter (\<lambda>p. goals_at u p gls_idx = Inr (Max (set gs))) players"
    proof (rule filter_cong [OF refl])
      fix p assume p: "p \<in> set players"
      then have "G p \<in> set gs" by (simp add: gs)
      have "(\<forall>q\<in>set players. G q \<le> G p) \<longleftrightarrow> G p = Max (set gs)"
      proof
        assume "\<forall>q\<in>set players. G q \<le> G p"
        then have "\<forall>g\<in>set gs. g \<le> G p" by (simp add: gs)
        then show "G p = Max (set gs)"
          using \<open>G p \<in> set gs\<close> ne by (intro Max_eqI [symmetric]) auto
      next
        assume "G p = Max (set gs)"
        then show "\<forall>q\<in>set players. G q \<le> G p"
          using ne by (simp add: gs)
      qed
      with all p show "(\<forall>q\<in>set players. G q \<le> G p)
          \<longleftrightarrow> goals_at u p gls_idx = Inr (Max (set gs))"
        by auto
    qed
    with loop pos ne show ?thesis by simp
  qed
  moreover have "\<forall>p\<in>set res. \<exists>g. goals_at u p gls_idx = Inr g \<and> 0 < g"
    if "get_top_scorer u players gls_idx = Inr res" for res
    using that first by (auto split: if_splits)
  ultimately show ?thesis by blast
qed

theorem get_top_scorer_max_witness:
  "get_top_scorer latin1
     [[Str (lit ''a''), Str (lit ''0'')], [Str (lit ''b''), Str (lit ''3'')], [Str (lit ''c''), Str (lit ''5'')],
      [Str (lit ''d''), Str (lit ''5'')], [Str (lit ''e''), Str (lit ''2'')]] 1
     = Inr [[Str (lit ''c''), Str (lit ''5'')], [Str (lit ''d''), Str (lit ''5'')]]
   \<and> get_top_scorer latin1 [[Str (lit ''a''), Str (lit ''0'')], [Str (lit ''b''), Str (lit ''0'')]] 1 = Inr []
   \<and> get_top_scorer latin1 [[Str (lit ''a''), Str [31, 55]]] 1 = Inl ValueError"
proof -
  have c: "get_top_scorer latin1 [[Str (lit ''a''), Str [31, 55]]] 1 = Inl ValueError"
    by (simp add: get_top_scorer_def goals_at_def getitem_def norm_index_def py_int_def
        parse_int_rejects)
  have g: "goals_at latin1 [Str n, Str (lit ''0'')] 1 = Inr 0" "goals_at latin1 [Str n, Str (lit ''3'')] 1 = Inr 3"
    "goals_at latin1 [Str n, Str (lit ''5'')] 1 = Inr 5" "goals_at latin1 [Str n, Str (lit ''2'')] 1 = Inr 2" for n
    by (simp_all add: goals_at_def getitem_def norm_index_def py_int_def parse_int_small)
  have a: "map (\<lambda>p. goals_at latin1 p 1)
      [[Str (lit ''a''), Str (lit ''0'')], [Str (lit ''b''), Str (lit ''3'')], [Str (lit ''c''), Str (lit ''5'')],
       [Str (lit ''d''), Str (lit ''5'')], [Str (lit ''e''), Str (lit ''2'')]] = map Inr [0, 3, 5, 5, 2]"
    by (simp add: g)
  have b: "map (\<lambda>p. goals_at latin1 p 1) [[Str (lit ''a''), Str (lit ''0'')], [Str (lit ''b''), Str (lit ''0'')]]
      = map Inr [0, 0]"
    by (simp add: g)
  show ?thesis
    using get_top_scorer_max [OF a] get_top_scorer_max [OF b] c by (simp add: g)
qed

subsection \<open>Shooting numbers of a player\<close>

lemma int_loop_st_frame:
  assumes "int_loop_st u js a h = (r, h')"
  shows "length h' = length h \<and> (\<forall>b. b \<noteq> a \<longrightarrow> h' ! b = h ! b)"
  using assms
proof (induction js arbitrary: h)
  case Nil
  then show ?case by simp
next
  case (Cons i js)
  show ?case
  proof (cases "getitem (h ! a) (int i)")
    case (Inl e)
    with Cons.prems show ?thesis by simp
  next
    case v: (Inr v)
    show ?thesis
    proof (cases "py_int u v")
      case (Inl e)
      with v Cons.prems show ?thesis by simp
    next
      case n: (Inr n)
      show ?thesis
      proof (cases "setitem (h ! a) (int i) (Intg n)")
        case (Inl e)
        with v n Cons.prems show ?thesis by simp
      next
        case (Inr xs)
        with v n Cons.prems have "int_loop_st u js a (h[a := xs]) = (r, h')" by simp
        from Cons.IH [OF this] show ?thesis by simp
      qed
    qed
  qed
qed

text \<open>
  C9. The call leaves every list object that existed before it as it was, the player row
  among them, whether it returns the numbers or fails on a field that is not an integer
  literal: the only object it writes to is the slice it has allocated.
\<close>

theorem get_player_shooting_numbers_frame:
  assumes "player < length h"
    and "get_player_shooting_numbers_st u h player sl = (r, h')"
  shows "h' ! player = h ! player \<and> take (length h) h' = h \<and> length h' = Suc (length h)"
proof -
  define h1 where "h1 = h @ [getslice (h ! player) sl]"
  obtain r0 where loop: "int_loop_st u [0..<length (h1 ! length h)] (length h) h1 = (r0, h')"
    using assms(2)
    by (auto simp: get_player_shooting_numbers_st_def Let_def h1_def split: prod.splits sum.splits)
  from int_loop_st_frame [OF loop]
  have len: "length h' = length h1" and same: "\<forall>b. b \<noteq> length h \<longrightarrow> h' ! b = h1 ! b"
    by auto
  have l: "length h' = Suc (length h)" using len by (simp add: h1_def)
  have "take (length h) h' = h"
  proof (rule nth_equalityI)
    show "length (take (length h) h') = length h" using l by simp
  next
    fix b assume "b < length (take (length h) h')"
    then have b: "b < length h" by simp
    then have "h' ! b = h1 ! b" using same by simp
    also have "\<dots> = h ! b" using b by (simp add: h1_def nth_append)
    finally show "take (length h) h' ! b = h ! b" using b by simp
  qed
  moreover from this have "h' ! player = h ! player"
    using assms(1) by (metis nth_take)
  ultimately show ?thesis using l by simp
qed

theorem get_player_shooting_numbers_frame_witness:
  "get_player_shooting_numbers_st latin1 [[Str (lit ''Ann''), Str (lit ''1''), Str (lit ''x''), Str (lit ''4'')]] 0
      \<lparr>start = 1, stop = 4\<rparr>
     = (Inl ValueError,
        [[Str (lit ''Ann''), Str (lit ''1''), Str (lit ''x''), Str (lit ''4'')], [Intg 1, Str (lit ''x''), Str (lit ''4'')]])
   \<and> get_player_shooting_numbers_st latin1 [[Str (lit ''Ann''), Str (lit ''1''), Str (lit ''10''), Str (lit ''4'')]] 0
      \<lparr>start = 1, stop = 4\<rparr>
     = (Inr 1, [[Str (lit ''Ann''), Str (lit ''1''), Str (lit ''10''), Str (lit ''4'')], [Intg 1, Intg 10, Intg 4]])"
proof -
  have a: "get_player_shooting_numbers_st latin1 [[Str (lit ''Ann''), Str (lit ''1''), Str (lit ''x''), Str (lit ''4'')]] 0
      \<lparr>start = 1, stop = 4\<rparr>
     = (Inl ValueError,
        [[Str (lit ''Ann''), Str (lit ''1''), Str (lit ''x''), Str (lit ''4'')], [Intg 1, Str (lit ''x''), Str (lit ''4'')]])"
    by (simp add: get_player_shooting_numbers_st_def getslice_def slice_bound_def upt_rec
        getitem_def norm_index_def setitem_def py_int_def parse_int_small)
  have b: "get_player_shooting_numbers_st latin1 [[Str (lit ''Ann''), Str (lit ''1''), Str (lit ''10''), Str (lit ''4'')]] 0
      \<lparr>start = 1, stop = 4\<rparr>
     = (Inr 1, [[Str (lit ''Ann''), Str (lit ''1''), Str (lit ''10''), Str (lit ''4'')], [Intg 1, Intg 10, Intg 4]])"
    by (simp add: get_player_shooting_numbers_st_def getslice_def slice_bound_def upt_rec
        getitem_def norm_index_def setitem_def py_int_def parse_int_small)
  have l: "(0::nat) < length [[Str (lit ''Ann''), Str (lit ''1''), Str (lit ''x''), Str (lit ''4'')]]" by simp
  from get_player_shooting_numbers_frame [OF l a] a b show ?thesis by simp
qed

lemma int_loop_st_value:
  assumes "a < length h" "h ! a = map Intg done @ rest"
  shows "case int_loop_st u [length done..<length (h ! a)] a h of
           (Inl e, h') \<Rightarrow> ints_of u rest = Inl e
         | (Inr ok, h') \<Rightarrow> (\<exists>ns. ints_of u rest = Inr ns \<and> h' ! a = map Intg (done @ ns))"
  using assms
proof (induction rest arbitrary: h "done")
  case Nil
  then show ?case by simp
next
  case (Cons v rest)
  have len: "length done < length (h ! a)" using Cons.prems(2) by simp
  then have upt: "[length done..<length (h ! a)] = length done # [Suc (length done)..<length (h ! a)]"
    by (simp add: upt_conv_Cons)
  have get: "getitem (h ! a) (int (length done)) = Inr v"
    using len Cons.prems(2) by (simp add: getitem_def norm_index_def nth_append)
  show ?case
  proof (cases "py_int u v")
    case (Inl e)
    then show ?thesis unfolding upt by (simp add: get)
  next
    case (Inr n)
    define h2 where "h2 = h[a := (h ! a)[length done := Intg n]]"
    have set: "setitem (h ! a) (int (length done)) (Intg n) = Inr ((h ! a)[length done := Intg n])"
      using len by (simp add: setitem_def norm_index_def)
    have h2a: "h2 ! a = map Intg (done @ [n]) @ rest"
      using Cons.prems by (simp add: h2_def list_update_append)
    have a2: "a < length h2" using Cons.prems(1) by (simp add: h2_def)
    have l2: "length (h2 ! a) = length (h ! a)" using Cons.prems by (simp add: h2_def)
    have step: "int_loop_st u [length done..<length (h ! a)] a h
        = int_loop_st u [length (done @ [n])..<length (h2 ! a)] a h2"
      unfolding upt l2 by (simp add: get Inr set h2_def)
    from Cons.IH [OF a2 h2a] show ?thesis
      unfolding step using Inr by (auto split: prod.splits sum.splits)
  qed
qed

lemma shooting_numbers_st_value:
  assumes "player < length h"
    and "get_player_shooting_numbers_st u h player sl = (r, h')"
  shows "case r of
           Inl e \<Rightarrow> get_player_shooting_numbers u (h ! player) sl = Inl e
         | Inr a \<Rightarrow> (\<exists>ns. get_player_shooting_numbers u (h ! player) sl = Inr ns
                        \<and> a = length h \<and> h' ! a = map Intg ns)"
proof -
  define h1 where "h1 = h @ [getslice (h ! player) sl]"
  have a: "length h < length h1" and v: "h1 ! length h = map Intg [] @ getslice (h ! player) sl"
    by (simp_all add: h1_def)
  from int_loop_st_value [OF a v, of u] assms(2) show ?thesis
    by (auto simp: get_player_shooting_numbers_st_def get_player_shooting_numbers_def Let_def
        h1_def split: prod.splits sum.splits)
qed

subsection \<open>Shooting numbers of a team\<close>

lemma parse_int_error: "parse_int u s = Inl e \<Longrightarrow> e = ValueError"
  by (auto simp: parse_int_def Let_def split: option.splits if_splits)

lemma py_int_error: "py_int u v = Inl e \<Longrightarrow> e = ValueError"
  by (cases v) (auto simp: py_int_def dest: parse_int_error)

lemma ints_of_error: "ints_of u vs = Inl e \<Longrightarrow> e = ValueError"
  by (induction vs) (auto split: sum.splits dest: py_int_error)

lemma player_triple_error: "player_triple u player sl = Inl e \<Longrightarrow> e = ValueError"
  by (auto simp: player_triple_def get_player_shooting_numbers_def unpack3_def
      split: sum.splits list.splits dest: ints_of_error)

lemma team_loop_spec:
  "team_loop u team sl (a, b, c) =
     (if \<forall>p\<in>set team. \<exists>tr. player_triple u p sl = Inr tr
      then Inr (a + (\<Sum>p\<leftarrow>team. fst (projr (player_triple u p sl))),
                b + (\<Sum>p\<leftarrow>team. fst (snd (projr (player_triple u p sl)))),
                c + (\<Sum>p\<leftarrow>team. snd (snd (projr (player_triple u p sl)))))
      else Inl ValueError)"
proof (induction team arbitrary: a b c)
  case Nil
  then show ?case by simp
next
  case (Cons p team)
  show ?case
  proof (cases "player_triple u p sl")
    case (Inl e)
    then have "e = ValueError" by (rule player_triple_error)
    with Inl show ?thesis by auto
  next
    case (Inr tr)
    obtain g s t where tr: "tr = (g, s, t)" by (cases tr) auto
    show ?thesis
      using Inr tr Cons.IH [of "a + g" "b + s" "c + t"] by (simp add: add.assoc)
  qed
qed

lemma sum_list_mset_cong:
  fixes f :: "'a \<Rightarrow> int"
  assumes "mset xs = mset ys"
  shows "(\<Sum>x\<leftarrow>xs. f x) = (\<Sum>x\<leftarrow>ys. f x)"
proof -
  have "(\<Sum>x\<leftarrow>xs. f x) = sum_mset (image_mset f (mset xs))"
    by (metis mset_map sum_mset_sum_list)
  also have "\<dots> = sum_mset (image_mset f (mset ys))" by (simp add: assms)
  also have "\<dots> = (\<Sum>x\<leftarrow>ys. f x)" by (metis mset_map sum_mset_sum_list)
  finally show ?thesis .
qed

text \<open>
  C6. When every row of the team yields three shooting numbers (\<open>ts\<close> is the list of the
  triples), \<open>get_team_shooting_numbers\<close> returns the three sums of the components. Its
  result, numbers or error, is the same for every reordering of the rows.
\<close>

theorem team_shooting_totals:
  "(map (\<lambda>p. player_triple u p sl) team = map Inr ts \<longrightarrow>
      get_team_shooting_numbers u team sl =
        Inr (sum_list (map fst ts), sum_list (map (fst \<circ> snd) ts),
             sum_list (map (snd \<circ> snd) ts)))
   \<and> (mset team' = mset team \<longrightarrow>
        get_team_shooting_numbers u team' sl = get_team_shooting_numbers u team sl)"
proof (intro conjI impI)
  assume "map (\<lambda>p. player_triple u p sl) team = map Inr ts"
  from map_Inr_eq [OF this]
  have ok: "\<forall>p\<in>set team. \<exists>tr. player_triple u p sl = Inr tr"
    and ts: "ts = map (\<lambda>p. projr (player_triple u p sl)) team"
    by blast+
  show "get_team_shooting_numbers u team sl =
        Inr (sum_list (map fst ts), sum_list (map (fst \<circ> snd) ts),
             sum_list (map (snd \<circ> snd) ts))"
    unfolding get_team_shooting_numbers_def team_loop_spec using ok
    by (simp add: ts comp_def)
next
  assume m: "mset team' = mset team"
  then have "set team' = set team" by (rule mset_eq_setD)
  then show "get_team_shooting_numbers u team' sl = get_team_shooting_numbers u team sl"
    unfolding get_team_shooting_numbers_def team_loop_spec
    using sum_list_mset_cong [OF m] by simp
qed

theorem team_shooting_totals_witness:
  "get_team_shooting_numbers latin1
      [[Str (lit ''Ann''), Str (lit ''1''), Str (lit ''10''), Str (lit ''4'')], [Str (lit ''Bea''), Str (lit ''2''), Str (lit ''3''), Str (lit ''3'')]]
      \<lparr>start = 1, stop = 4\<rparr> = Inr (3, 13, 7)
   \<and> get_team_shooting_numbers latin1
      [[Str (lit ''Bea''), Str (lit ''2''), Str (lit ''3''), Str (lit ''3'')], [Str (lit ''Ann''), Str (lit ''1''), Str (lit ''10''), Str (lit ''4'')]]
      \<lparr>start = 1, stop = 4\<rparr> = Inr (3, 13, 7)
   \<and> get_team_shooting_numbers latin1
      [[Str (lit ''Ann''), Str [31, 49], Str (lit ''10''), Str (lit ''4'')]]
      \<lparr>start = 1, stop = 4\<rparr> = Inl ValueError"
proof -
  have c: "get_team_shooting_numbers latin1
      [[Str (lit ''Ann''), Str [31, 49], Str (lit ''10''), Str (lit ''4'')]]
      \<lparr>start = 1, stop = 4\<rparr> = Inl ValueError"
    by (simp add: get_team_shooting_numbers_def player_triple_def
        get_player_shooting_numbers_def getslice_def slice_bound_def py_int_def
        parse_int_rejects)
  have t: "player_triple latin1 [Str (lit ''Ann''), Str (lit ''1''), Str (lit ''10''), Str (lit ''4'')] \<lparr>start = 1, stop = 4\<rparr>
        = Inr (1, 10, 4)"
    "player_triple latin1 [Str (lit ''Bea''), Str (lit ''2''), Str (lit ''3''), Str (lit ''3'')] \<lparr>start = 1, stop = 4\<rparr>
        = Inr (2, 3, 3)"
    by (simp_all add: player_triple_def get_player_shooting_numbers_def getslice_def
        slice_bound_def py_int_def parse_int_small unpack3_def)
  have m: "map (\<lambda>p. player_triple latin1 p \<lparr>start = 1, stop = 4\<rparr>)
      [[Str (lit ''Ann''), Str (lit ''1''), Str (lit ''10''), Str (lit ''4'')], [Str (lit ''Bea''), Str (lit ''2''), Str (lit ''3''), Str (lit ''3'')]]
      = map Inr [(1, 10, 4), (2, 3, 3)]"
    by (simp add: t)
  have p: "mset [[Str (lit ''Bea''), Str (lit ''2''), Str (lit ''3''), Str (lit ''3'')], [Str (lit ''Ann''), Str (lit ''1''), Str (lit ''10''), Str (lit ''4'')]]
      = mset [[Str (lit ''Ann''), Str (lit ''1''), Str (lit ''10''), Str (lit ''4'')], [Str (lit ''Bea''), Str (lit ''2''), Str (lit ''3''), Str (lit ''3'')]]"
    by simp
  from team_shooting_totals
    [of latin1 "\<lparr>start = 1, stop = 4\<rparr>"
        "[[Str (lit ''Ann''), Str (lit ''1''), Str (lit ''10''), Str (lit ''4'')], [Str (lit ''Bea''), Str (lit ''2''), Str (lit ''3''), Str (lit ''3'')]]"
        "[(1, 10, 4), (2, 3, 3)]"
        "[[Str (lit ''Bea''), Str (lit ''2''), Str (lit ''3''), Str (lit ''3'')], [Str (lit ''Ann''), Str (lit ''1''), Str (lit ''10''), Str (lit ''4'')]]"]
    m p c
  show ?thesis by simp
qed

subsection \<open>Conversion rate\<close>

lemma round_half_even_error: "\<bar>of_int (round_half_even q) - q\<bar> \<le> 1 / 2"
proof -
  have "of_int \<lfloor>q\<rfloor> \<le> q" "q < of_int \<lfloor>q\<rfloor> + 1" by linarith+
  then show ?thesis
    by (auto simp: round_half_even_def Let_def abs_le_iff)
qed

lemma round_half_even_abs_le:
  assumes "\<bar>z\<bar> \<le> of_int n"
  shows "\<bar>round_half_even z\<bar> \<le> n"
proof -
  have "\<bar>(of_int (round_half_even z) :: rat)\<bar> \<le> of_int n + 1 / 2"
    using round_half_even_error [of z] assms by linarith
  then have "(of_int \<bar>round_half_even z\<bar> :: rat) < of_int (n + 1)" by simp
  then have "\<bar>round_half_even z\<bar> < n + 1" by (simp only: of_int_less_iff)
  then show ?thesis by simp
qed

lemma nearest_float_bound:
  assumes "- 1074 \<le> k" "\<bar>q\<bar> \<le> 2 powi k"
  shows "\<bar>nearest_float q\<bar> \<le> 2 powi k"
proof (cases "q = 0")
  case True
  then show ?thesis by (simp add: nearest_float_def)
next
  case False
  define u where "u = float_ulp_exp q"
  from False have "0 < \<bar>q\<bar>" by simp
  from floor_log2_bounds [OF this] assms(2)
  have "(2::rat) powi floor_log2 \<bar>q\<bar> \<le> 2 powi k" by linarith
  then have "floor_log2 \<bar>q\<bar> \<le> k" by (simp only: powi2_le_iff)
  with assms(1) have uk: "u \<le> k" by (simp add: u_def float_ulp_exp_def)
  have split: "(2::rat) powi k = 2 powi (k - u) * 2 powi u"
    using power_int_add [of "2::rat" "k - u" u] by simp
  have int: "(2::rat) powi (k - u) = of_int (2 ^ nat (k - u))"
    using uk by (simp add: power_int_def)
  have "\<bar>q / 2 powi u\<bar> = \<bar>q\<bar> / 2 powi u" by simp
  also have "\<dots> \<le> 2 powi k / 2 powi u"
    using assms(2) by (intro divide_right_mono) simp_all
  also have "\<dots> = of_int (2 ^ nat (k - u))"
    using split int by simp
  finally have "\<bar>round_half_even (q / 2 powi u)\<bar> \<le> 2 ^ nat (k - u)"
    by (rule round_half_even_abs_le)
  then have "(of_int \<bar>round_half_even (q / 2 powi u)\<bar> :: rat) \<le> of_int (2 ^ nat (k - u))"
    by (simp only: of_int_le_iff)
  then have "\<bar>of_int (round_half_even (q / 2 powi u)) :: rat\<bar> \<le> 2 powi (k - u)"
    using int by simp
  then have "\<bar>of_int (round_half_even (q / 2 powi u)) :: rat\<bar> * 2 powi u
      \<le> 2 powi (k - u) * 2 powi u"
    by (intro mult_right_mono) simp_all
  then have "\<bar>of_int (round_half_even (q / 2 powi u)) * 2 powi u :: rat\<bar> \<le> 2 powi k"
    using split by (simp add: abs_mult)
  with False show ?thesis by (simp add: nearest_float_def u_def Let_def)
qed

lemma to_float_in_range:
  assumes "\<bar>q\<bar> \<le> 2 ^ 1023"
  shows "to_float q = Inr (nearest_float q)"
proof -
  have "\<bar>q\<bar> \<le> 2 powi 1023" using assms by simp
  then have "\<bar>nearest_float q\<bar> \<le> 2 powi 1023" by (intro nearest_float_bound) simp_all
  then have "\<bar>nearest_float q\<bar> \<le> 2 ^ 1023" by simp
  moreover have "(2::rat) ^ 1023 < 2 ^ 1024" by (intro power_strict_increasing) simp_all
  ultimately have "\<not> 2 ^ 1024 \<le> \<bar>nearest_float q\<bar>" by linarith
  then show ?thesis by (simp add: to_float_def Let_def)
qed

lemma to_float_error: "to_float q = Inl e \<Longrightarrow> e = OverflowError"
  by (auto simp: to_float_def Let_def split: if_splits)

lemma py_round_error: "py_round x p = Inl e \<Longrightarrow> e = OverflowError"
  by (auto simp: py_round_def split: if_splits dest: to_float_error)

lemma decimal_error:
  "\<bar>of_int (round_half_even (x * 10 powi p)) / 10 powi p - x\<bar> \<le> 1 / (2 * 10 powi p)"
proof -
  have pos: "(0::rat) < 10 powi p" by simp
  have "of_int (round_half_even (x * 10 powi p)) / 10 powi p - x
      = (of_int (round_half_even (x * 10 powi p)) - x * 10 powi p) / 10 powi p"
    using pos by (simp add: field_simps)
  then have "\<bar>of_int (round_half_even (x * 10 powi p)) / 10 powi p - x\<bar>
      = \<bar>of_int (round_half_even (x * 10 powi p)) - x * 10 powi p\<bar> / 10 powi p"
    using pos by (simp add: abs_divide)
  also have "\<dots> \<le> (1 / 2) / 10 powi p"
    using round_half_even_error [of "x * 10 powi p"] pos by (intro divide_right_mono) simp_all
  finally show ?thesis by simp
qed

lemma py_round_in_range:
  assumes "\<bar>x\<bar> \<le> 2 ^ 1021"
  shows "\<exists>r. py_round x p = Inr r"
proof (cases "323 < p \<or> p < - 308")
  case True
  then show ?thesis by (auto simp: py_round_def)
next
  case False
  define y :: rat where "y = of_int (round_half_even (x * 10 powi p)) / 10 powi p"
  have "(10::rat) powi (- p) \<le> 10 powi 308"
    using False by (intro power_int_increasing) simp_all
  then have "1 / (2 * 10 powi p) \<le> (10::rat) ^ 308 / 2"
    by (simp add: power_int_minus field_simps)
  with decimal_error [of x p] have "\<bar>y - x\<bar> \<le> 10 ^ 308 / 2" by (simp add: y_def)
  with assms have "\<bar>y\<bar> \<le> 2 ^ 1021 + 10 ^ 308 / 2" by linarith
  also have "\<dots> \<le> (2::rat) ^ 1023" by simp
  finally have "to_float y = Inr (nearest_float y)" by (rule to_float_in_range)
  with False show ?thesis by (simp add: py_round_def y_def)
qed

lemma nearest_float_pow2:
  assumes "- 1022 \<le> e"
  shows "nearest_float (2 powi e) = 2 powi e"
proof -
  have fl: "floor_log2 (2 powi e) = e"
    by (rule floor_log2_eqI) (simp_all add: powi2_less_iff)
  have u: "float_ulp_exp (2 powi e) = e - 52"
    using assms by (simp add: float_ulp_exp_def fl)
  have "(2::rat) powi e / 2 powi (e - 52) = 2 powi 52"
    by (simp add: power_int_diff)
  also have "\<dots> = of_int (2 ^ 52)" by simp
  finally have "round_half_even (2 powi e / 2 powi (e - 52)) = 2 ^ 52"
    by (simp only: round_half_even_of_int)
  then have "nearest_float (2 powi e) = 2 powi 52 * 2 powi (e - 52)"
    by (simp add: nearest_float_def u)
  also have "\<dots> = 2 powi (52 + (e - 52))"
    by (rule power_int_add [symmetric]) simp
  finally show ?thesis by simp
qed

lemma calculate_zero_shots: "calculate_shot_conversion_rate gls 0 p = Inr 0"
  by (simp add: calculate_shot_conversion_rate_def truediv_def)

lemma calculate_nonzero_shots:
  "sh \<noteq> 0 \<Longrightarrow>
     calculate_shot_conversion_rate gls sh p =
       (case to_float (of_int gls / of_int sh) of
          Inl e \<Rightarrow> Inl e
        | Inr x \<Rightarrow> py_round x p)"
  by (auto simp: calculate_shot_conversion_rate_def truediv_def split: sum.splits error.splits
      dest: to_float_error)

text \<open>
  C2 as stated fails: the quotient of \<open>2 ^ 1024\<close> and \<open>1\<close> is too large for a float, the
  division raises OverflowError, and the function handles ZeroDivisionError only.
\<close>

theorem conversion_rate_overflow:
  "calculate_shot_conversion_rate (2 ^ 1024) 1 2 = Inl OverflowError"
proof -
  have "nearest_float (2 powi 1024) = 2 powi 1024"
    by (rule nearest_float_pow2) simp
  then have "nearest_float (2 ^ 1024) = 2 ^ 1024" by simp
  then have "to_float (2 ^ 1024) = Inl OverflowError"
    by (simp add: to_float_def)
  then show ?thesis
    by (simp add: calculate_shot_conversion_rate_def truediv_def)
qed

text \<open>
  C2, amended. With no shots the rate is \<open>0.0\<close>, whatever the goals and the precision, and
  a ZeroDivisionError never leaves the function. With shots, and a quotient of magnitude
  at most \<open>2 ^ 1021\<close>, the function returns \<^verbatim>\<open>round(goals / shots, p)\<close> for every precision
  \<open>p\<close>; for \<open>p\<close> from -308 to 323 every result it returns is the float nearest to a
  multiple \<open>n / 10 ^ p\<close> that lies within half a unit of the \<open>p\<close>-th decimal place of the
  float quotient.
\<close>

theorem conversion_rate_in_range:
  "calculate_shot_conversion_rate gls 0 p = Inr 0
   \<and> calculate_shot_conversion_rate gls sh p \<noteq> Inl ZeroDivisionError
   \<and> (sh \<noteq> 0 \<longrightarrow> \<bar>gls\<bar> \<le> 2 ^ 1021 * \<bar>sh\<bar> \<longrightarrow>
        (\<exists>r. calculate_shot_conversion_rate gls sh p = Inr r
            \<and> truediv gls sh = Inr (nearest_float (of_int gls / of_int sh))
            \<and> py_round (nearest_float (of_int gls / of_int sh)) p = Inr r))
   \<and> (sh \<noteq> 0 \<longrightarrow> - 308 \<le> p \<longrightarrow> p \<le> 323 \<longrightarrow>
        calculate_shot_conversion_rate gls sh p = Inr r \<longrightarrow>
        (\<exists>x n. truediv gls sh = Inr x
            \<and> n = round_half_even (x * 10 powi p)
            \<and> r = nearest_float (of_int n / 10 powi p)
            \<and> \<bar>of_int n / 10 powi p - x\<bar> \<le> 1 / (2 * 10 powi p)))"
proof (intro conjI impI)
  show "calculate_shot_conversion_rate gls 0 p = Inr 0"
    by (rule calculate_zero_shots)
  show "calculate_shot_conversion_rate gls sh p \<noteq> Inl ZeroDivisionError"
  proof (cases "sh = 0")
    case True
    then show ?thesis by (simp add: calculate_zero_shots)
  next
    case False
    then show ?thesis
      by (auto simp: calculate_nonzero_shots split: sum.splits
          dest: to_float_error py_round_error)
  qed
next
  assume s: "sh \<noteq> 0" and b: "\<bar>gls\<bar> \<le> 2 ^ 1021 * \<bar>sh\<bar>"
  define q :: rat where "q = of_int gls / of_int sh"
  have "(of_int \<bar>gls\<bar> :: rat) \<le> of_int (2 ^ 1021 * \<bar>sh\<bar>)"
    using b by (simp only: of_int_le_iff)
  then have "\<bar>of_int gls :: rat\<bar> \<le> 2 ^ 1021 * \<bar>of_int sh\<bar>" by simp
  then have q: "\<bar>q\<bar> \<le> 2 ^ 1021"
    using s by (simp add: q_def field_simps)
  have "\<bar>q\<bar> \<le> 2 powi 1021" using q by simp
  then have "\<bar>nearest_float q\<bar> \<le> 2 powi 1021" by (intro nearest_float_bound) simp_all
  then have x: "\<bar>nearest_float q\<bar> \<le> 2 ^ 1021" by simp
  have "(2::rat) ^ 1021 \<le> 2 ^ 1023" by (intro power_increasing) simp_all
  with q have "\<bar>q\<bar> \<le> 2 ^ 1023" by linarith
  then have t: "to_float q = Inr (nearest_float q)" by (rule to_float_in_range)
  from py_round_in_range [OF x, of p] obtain r where r: "py_round (nearest_float q) p = Inr r"
    by blast
  show "\<exists>r. calculate_shot_conversion_rate gls sh p = Inr r
            \<and> truediv gls sh = Inr (nearest_float (of_int gls / of_int sh))
            \<and> py_round (nearest_float (of_int gls / of_int sh)) p = Inr r"
    using s t r by (auto simp: calculate_nonzero_shots truediv_def q_def)
next
  assume s: "sh \<noteq> 0" and p: "- 308 \<le> p" "p \<le> 323"
    and c: "calculate_shot_conversion_rate gls sh p = Inr r"
  from c s obtain x where x: "to_float (of_int gls / of_int sh) = Inr x"
    and r: "py_round x p = Inr r"
    by (auto simp: calculate_nonzero_shots split: sum.splits)
  from r p have "r = nearest_float (of_int (round_half_even (x * 10 powi p)) / 10 powi p)"
    by (auto simp: py_round_def to_float_def Let_def split: if_splits)
  with x s decimal_error [of x p]
  show "\<exists>x n. truediv gls sh = Inr x
            \<and> n = round_half_even (x * 10 powi p)
            \<and> r = nearest_float (of_int n / 10 powi p)
            \<and> \<bar>of_int n / 10 powi p - x\<bar> \<le> 1 / (2 * 10 powi p)"
    by (auto simp: truediv_def)
qed

lemma nearest_float_eval:
  assumes "2 powi e \<le> \<bar>q\<bar>" "\<bar>q\<bar> < 2 powi (e + 1)"
  shows "nearest_float q =
     of_int (round_half_even (q / 2 powi max (e - 52) (- 1074))) * 2 powi max (e - 52) (- 1074)"
proof -
  have fl: "floor_log2 \<bar>q\<bar> = e" using assms by (rule floor_log2_eqI)
  have "(0::rat) < 2 powi e" by simp
  with assms(1) have "0 < \<bar>q\<bar>" by linarith
  then have "q \<noteq> 0" by simp
  with fl show ?thesis by (simp add: nearest_float_def float_ulp_exp_def Let_def)
qed

lemma round_half_even_numeral_int: "round_half_even (numeral n) = numeral n"
  using round_half_even_of_int [of "numeral n"] by simp

lemma nearest_float_quarter: "nearest_float (1 / 4) = 1 / 4"
  using nearest_float_pow2 [of "- 2"] by simp

lemma nearest_float_tenth: "nearest_float (1 / 10) = 3602879701896397 / 36028797018963968"
  by (subst nearest_float_eval [of "- 4"]) (simp_all add: round_half_even_numeral)

lemma calculate_1_4: "calculate_shot_conversion_rate 1 4 3 = Inr (1 / 4)"
  by (simp add: calculate_nonzero_shots to_float_def py_round_def nearest_float_quarter
      round_half_even_numeral_int)

lemma calculate_1_10:
  "calculate_shot_conversion_rate 1 10 3 = Inr (3602879701896397 / 36028797018963968)"
  by (simp add: calculate_nonzero_shots to_float_def py_round_def nearest_float_tenth
      round_half_even_numeral)

theorem conversion_rate_in_range_witness:
  "calculate_shot_conversion_rate 1 4 3 = Inr (1 / 4)
   \<and> calculate_shot_conversion_rate 5 0 3 = Inr 0
   \<and> calculate_shot_conversion_rate 0 0 3 = Inr 0
   \<and> truediv 1 4 = Inr (1 / 4)"
proof -
  have a: "(4::int) \<noteq> 0" "\<bar>1::int\<bar> \<le> 2 ^ 1021 * \<bar>4\<bar>" "- 308 \<le> (3::int)" "(3::int) \<le> 323"
    by simp_all
  from conversion_rate_in_range [of 1 3 4 "1 / 4"] a calculate_1_4
  have "truediv 1 4 = Inr (nearest_float (of_int 1 / of_int 4))" by blast
  then have "truediv 1 4 = Inr (1 / 4)" by (simp add: nearest_float_quarter)
  moreover from conversion_rate_in_range [of 5 3 1 0]
  have "calculate_shot_conversion_rate 5 0 3 = Inr 0" by blast
  moreover from conversion_rate_in_range [of 0 3 1 0]
  have "calculate_shot_conversion_rate 0 0 3 = Inr 0" by blast
  ultimately show ?thesis using calculate_1_4 by simp
qed

subsection \<open>The arity of the rows\<close>


















end
